theory Spec2Isabelle
  imports Complex_Main "HOL-Library.Word" "HOL-Library.Sublist"
begin

section \<open>The Hadoop-snappy framing of \<^verbatim>\<open>snappy/snappy_hadoop.py\<close>\<close>

text \<open>
  The module wraps a block codec (Snappy's \<^verbatim>\<open>compress\<close> and \<^verbatim>\<open>uncompress\<close>, imported from
  the C extension) into length-prefixed frames. The codec is not part of the Python
  source, so every function that calls it takes it as a parameter.

  Conventions of the embedding:
  \<^item> a byte string is a list of 8-bit words;
  \<^item> Python integers are \<open>int\<close>; a Python number that may be an integer or a float is
    a \<open>pynum\<close>;
  \<^item> a raised exception is a value of type \<open>error\<close>; a function that can raise returns
    \<open>error + 'a\<close> with \<open>Inl\<close> for the exception;
  \<^item> a file-like object is the list of bytes not yet read (for a source) or the list of
    bytes written so far (for a sink); \<^verbatim>\<open>read(n)\<close> returns as many bytes as it can, up to
    \<open>n\<close>, as regular files and in-memory buffers do;
  \<^item> \<^verbatim>\<open>/\<close> on two integers is true division and returns a float, also when the quotient is
    whole (\<^verbatim>\<open>42 / 6\<close> is \<^verbatim>\<open>7.0\<close>); an integer plus or minus a float is a float;
  \<^item> a float is modelled by the real number it stands for. The rounding of doubles is not
    modelled: the closed statements below use values that doubles hold exactly, and the
    general ones give bounds that rounding does not reach.
\<close>

type_synonym byte = "8 word"
type_synonym bytes = "byte list"

text \<open>
  The messages of the \<^verbatim>\<open>UncompressError\<close>s that \<^verbatim>\<open>stream_decompress\<close> raises, and the one
  the codec raises itself on a malformed block.
\<close>

datatype uncompress_msg =
    Failed_to_read_compressed_chunk_length
  | Failed_to_read_compressed_chunk
  | Chunk_length_mismatch int int
  | Codec_rejected_block

text \<open>
  \<^verbatim>\<open>struct.error\<close> comes from \<^verbatim>\<open>struct.pack\<close> and \<^verbatim>\<open>struct.unpack\<close>; \<^verbatim>\<open>TypeError\<close> comes from
  \<^verbatim>\<open>read\<close> when its size is not an integer.
\<close>

datatype error = StructError | UncompressError uncompress_msg | TypeError

text \<open>A Python number: an \<^verbatim>\<open>int\<close> or a \<^verbatim>\<open>float\<close>.\<close>

datatype pynum = PyInt int | PyFloat real

subsection \<open>Sizing\<close>

definition SNAPPY_BUFFER_SIZE_DEFAULT :: int where
  "SNAPPY_BUFFER_SIZE_DEFAULT = 256 * 1024"

text \<open>
  \<^verbatim>\<open>
  def hadoop_snappy_max_input_size(block_size):
      buffer_size = block_size if block_size else SNAPPY_BUFFER_SIZE_DEFAULT
      compression_overhead = (buffer_size / 6) + 32
      return buffer_size - compression_overhead
  \<close>
  The argument is \<^verbatim>\<open>None\<close> or an integer; \<^verbatim>\<open>None\<close> and \<open>0\<close> are both falsy. \<^verbatim>\<open>buffer_size\<close> is an
  integer, \<^verbatim>\<open>buffer_size / 6\<close> a float, and so are the overhead and the result. The body has
  no \<^verbatim>\<open>raise\<close>: the result is always \<open>Inr\<close>.
\<close>

definition hadoop_snappy_max_input_size :: "int option \<Rightarrow> error + pynum" where
  "hadoop_snappy_max_input_size block_size =
     (let buffer_size = (case block_size of
                           None \<Rightarrow> SNAPPY_BUFFER_SIZE_DEFAULT
                         | Some b \<Rightarrow> if b \<noteq> 0 then b else SNAPPY_BUFFER_SIZE_DEFAULT);
          compression_overhead = (real_of_int buffer_size / 6) + 32
      in Inr (PyFloat (real_of_int buffer_size - compression_overhead)))"

subsection \<open>Length fields\<close>

text \<open>
  \<^verbatim>\<open>struct.pack('>I', num)\<close>: four bytes, most significant first; \<^verbatim>\<open>struct.error\<close> when
  \<open>num\<close> is not in the range of an unsigned 32-bit integer.
\<close>

definition pack_I :: "int \<Rightarrow> error + bytes" where
  "pack_I num =
     (if 0 \<le> num \<and> num < 2 ^ 32
      then Inr [word_of_int (num div 2 ^ 24), word_of_int (num div 2 ^ 16),
                word_of_int (num div 2 ^ 8), word_of_int num]
      else Inl StructError)"

text \<open>
  \<^verbatim>\<open>struct.unpack('>I', data)[0]\<close>: \<^verbatim>\<open>struct.error\<close> unless \<open>data\<close> has exactly four bytes.
\<close>

fun unpack_I :: "bytes \<Rightarrow> error + int" where
  "unpack_I [b3, b2, b1, b0] =
     Inr (uint b3 * 2 ^ 24 + uint b2 * 2 ^ 16 + uint b1 * 2 ^ 8 + uint b0)"
| "unpack_I data = Inl StructError"

definition prepare_num :: "int \<Rightarrow> error + bytes" where
  "prepare_num num = pack_I num"

text \<open>
  \<^verbatim>\<open>fin.read(n)\<close> on the unread bytes of a file: the bytes returned and the bytes left.
  A negative size reads to the end of the file.
\<close>

definition fread :: "int \<Rightarrow> bytes \<Rightarrow> bytes \<times> bytes" where
  "fread n unread =
     (if n < 0 then (unread, []) else (take (nat n) unread, drop (nat n) unread))"

text \<open>
  \<^verbatim>\<open>fin.read(n)\<close> where \<open>n\<close> is any Python number: files and in-memory buffers take an
  integer size and raise \<^verbatim>\<open>TypeError\<close> on a float, also on a whole one such as \<^verbatim>\<open>3.0\<close>.
\<close>

definition read_size :: "pynum \<Rightarrow> bytes \<Rightarrow> error + bytes \<times> bytes" where
  "read_size n unread =
     (case n of PyInt k \<Rightarrow> Inr (fread k unread) | PyFloat x \<Rightarrow> Inl TypeError)"

text \<open>
  \<^verbatim>\<open>
  def read_int(fin):
      data = fin.read(4)
      if not data:
          return 0
      return struct.unpack('>I', data)[0]
  \<close>
  The second component is what is left unread, also when \<^verbatim>\<open>unpack\<close> raises.
\<close>

definition read_int :: "bytes \<Rightarrow> (error + int) \<times> bytes" where
  "read_int fin =
     (let (data, rest) = fread 4 fin
      in if data = [] then (Inr 0, rest) else (unpack_I data, rest))"

subsection \<open>The compressor\<close>

text \<open>
  \<^verbatim>\<open>StreamCompressor.add_chunk\<close>. The class has no fields (\<^verbatim>\<open>__init__\<close> is \<^verbatim>\<open>pass\<close>), so the
  method is a function of the codec and of \<open>data\<close>. The first \<^verbatim>\<open>prepare_num\<close> runs before
  the codec is called.
\<close>

definition add_chunk :: "(bytes \<Rightarrow> bytes) \<Rightarrow> bytes \<Rightarrow> error + bytes" where
  "add_chunk compress data =
     (let uncompressed_length = int (length data)
      in case prepare_num uncompressed_length of
           Inl e \<Rightarrow> Inl e
         | Inr out1 \<Rightarrow>
             (let compressed_chunk = compress data;
                  compressed_length = int (length compressed_chunk)
              in case prepare_num compressed_length of
                   Inl e \<Rightarrow> Inl e
                 | Inr out2 \<Rightarrow> Inr (concat [out1, out2, compressed_chunk])))"

subsection \<open>The whole-stream functions\<close>

text \<open>The source and the sink of \<^verbatim>\<open>stream_compress\<close> and \<^verbatim>\<open>stream_decompress\<close>.\<close>

record files =
  src :: bytes
  dst :: bytes

text \<open>
  The loop of \<^verbatim>\<open>stream_compress\<close>:
  \<^verbatim>\<open>
  while True:
      buf = src.read(blocksize)
      if not buf:
          break
      buf = compressor.add_chunk(buf)
      if buf:
          dst.write(buf)
  \<close>
  The block size is what \<^verbatim>\<open>hadoop_snappy_max_input_size\<close> returned. The result is the
  exception raised, if any, and the files as the call leaves them.
\<close>

function stream_compress_loop ::
  "(bytes \<Rightarrow> bytes) \<Rightarrow> pynum \<Rightarrow> files \<Rightarrow> error option \<times> files" where
  "stream_compress_loop compress blocksize f =
     (case read_size blocksize (src f) of
        Inl e \<Rightarrow> (Some e, f)
      | Inr (buf, rest) \<Rightarrow>
          if buf = [] then (None, f\<lparr>src := rest\<rparr>)
          else (case add_chunk compress buf of
                  Inl e \<Rightarrow> (Some e, f\<lparr>src := rest\<rparr>)
                | Inr framed \<Rightarrow>
                    stream_compress_loop compress blocksize
                      \<lparr>src = rest,
                       dst = (if framed \<noteq> [] then dst f @ framed else dst f)\<rparr>))"
  by pat_completeness auto
termination
  by (relation "measure (\<lambda>(c, b, f). length (src f))")
     (auto simp: read_size_def fread_def split: pynum.splits if_splits)

definition stream_compress ::
  "(bytes \<Rightarrow> bytes) \<Rightarrow> int option \<Rightarrow> files \<Rightarrow> error option \<times> files" where
  "stream_compress compress blocksize f =
     (case hadoop_snappy_max_input_size blocksize of
        Inl e \<Rightarrow> (Some e, f)
      | Inr bs \<Rightarrow> stream_compress_loop compress bs f)"

text \<open>
  \<^verbatim>\<open>
  def stream_decompress(src, dst):
      while True:
          uncompressed_length = read_int(src)
          if not uncompressed_length:
              break
          compressed_length = read_int(src)
          if not compressed_length:
              raise UncompressError("Failed to read compressed chunk length")
          compressed_chunk = src.read(compressed_length)
          if len(compressed_chunk) != compressed_length:
              raise UncompressError("Failed to read compressed chunk")
          uncompressed_chunk = _uncompress(compressed_chunk)
          if len(uncompressed_chunk) != uncompressed_length:
              raise UncompressError("Specified uncompressed chunk length ...")
          dst.write(uncompressed_chunk)
  \<close>
\<close>

function stream_decompress ::
  "(bytes \<Rightarrow> error + bytes) \<Rightarrow> files \<Rightarrow> error option \<times> files" where
  "stream_decompress uncompress f =
     (case read_int (src f) of
        (Inl e, rest1) \<Rightarrow> (Some e, f\<lparr>src := rest1\<rparr>)
      | (Inr uncompressed_length, rest1) \<Rightarrow>
          if uncompressed_length = 0 then (None, f\<lparr>src := rest1\<rparr>)
          else (case read_int rest1 of
                  (Inl e, rest2) \<Rightarrow> (Some e, f\<lparr>src := rest2\<rparr>)
                | (Inr compressed_length, rest2) \<Rightarrow>
                    if compressed_length = 0
                    then (Some (UncompressError Failed_to_read_compressed_chunk_length),
                          f\<lparr>src := rest2\<rparr>)
                    else (let (compressed_chunk, rest3) = fread compressed_length rest2
                          in if int (length compressed_chunk) \<noteq> compressed_length
                             then (Some (UncompressError Failed_to_read_compressed_chunk),
                                   f\<lparr>src := rest3\<rparr>)
                             else (case uncompress compressed_chunk of
                                     Inl e \<Rightarrow> (Some e, f\<lparr>src := rest3\<rparr>)
                                   | Inr uncompressed_chunk \<Rightarrow>
                                       if int (length uncompressed_chunk) \<noteq> uncompressed_length
                                       then (Some (UncompressError
                                                (Chunk_length_mismatch uncompressed_length
                                                   (int (length uncompressed_chunk)))),
                                             f\<lparr>src := rest3\<rparr>)
                                       else stream_decompress uncompress
                                              \<lparr>src = rest3,
                                               dst = dst f @ uncompressed_chunk\<rparr>))))"
  by pat_completeness auto
termination
proof (relation "measure (\<lambda>(u, f). length (src f))", goal_cases)
  case 1
  show ?case by simp
next
  case (2 uncompress f x rest1 ulen y rest2 clen z chunk rest3 out)
  from 2(1,2,3) have "length rest1 < length (src f)"
    by (auto simp: read_int_def fread_def split: if_splits)
  moreover from 2(4) have "length rest2 \<le> length rest1"
    by (auto simp: read_int_def fread_def split: if_splits)
  moreover from 2(7,8) have "length rest3 \<le> length rest2"
    by (auto simp: fread_def split: if_splits)
  ultimately show ?case by simp
qed

text \<open>
  Successive \<^verbatim>\<open>add_chunk\<close> calls on one compressor with the returned frames concatenated, as
  the test suite builds a multi-chunk stream (\<^verbatim>\<open>compressed += compressor.add_chunk(chunk)\<close>).
\<close>

fun add_chunks :: "(bytes \<Rightarrow> bytes) \<Rightarrow> bytes list \<Rightarrow> error + bytes" where
  "add_chunks compress [] = Inr []"
| "add_chunks compress (chunk # chunks) =
     (case add_chunk compress chunk of
        Inl e \<Rightarrow> Inl e
      | Inr framed \<Rightarrow>
          (case add_chunks compress chunks of
             Inl e \<Rightarrow> Inl e
           | Inr compressed \<Rightarrow> Inr (framed @ compressed)))"

subsection \<open>The wire format\<close>

text \<open>
  The spec's reading of a length field (section 6, "unsigned, big-endian"): the number
  that a byte string denotes, most significant byte first. It is the spec's side of the
  comparison with the bytes that \<open>add_chunk\<close> produces, written independently of
  \<open>pack_I\<close> and \<open>unpack_I\<close>.
\<close>

definition big_endian_value :: "bytes \<Rightarrow> int" where
  "big_endian_value bs = foldl (\<lambda>acc b. acc * 256 + uint b) 0 bs"

subsection \<open>The incremental decoder\<close>

text \<open>
  Modelled from the spec: the incremental frame decoder (\<^verbatim>\<open>StreamDecompressor\<close>, with
  \<^verbatim>\<open>decompress(piece)\<close> and \<^verbatim>\<open>flush()\<close>). The tests call it, but \<^verbatim>\<open>snappy_hadoop.py\<close> does not
  define it. The spec gives it a buffer of received bytes and a cursor with three states.
\<close>

datatype decoder_cursor =
    AwaitUncompressedLen
  | AwaitCompressedLen int
  | AwaitCompressedBody int int

text \<open>Modelled from the spec: the error kinds of section 7 that the decoder can report.\<close>

datatype decode_error = TruncatedStream | LengthMismatch | CodecDecodeFailure

text \<open>
  Modelled from the spec: the decoder state of section 3, an accumulation buffer and the
  cursor.
\<close>

record decoder_state =
  buffer :: bytes
  cursor :: decoder_cursor

text \<open>Modelled from the spec: the state is created empty at decoder construction.\<close>

definition new_decoder :: decoder_state where
  "new_decoder = \<lparr>buffer = [], cursor = AwaitUncompressedLen\<rparr>"

text \<open>
  Modelled from the spec: the state machine of section 4.2, run on the buffered bytes until
  the current state lacks bytes. Each length state waits for 4 bytes and parses them as a
  big-endian number; the body state waits for \<open>compressed_length\<close> bytes, calls the codec,
  compares the decoded length with \<open>uncompressed_length\<close> and appends the decoded bytes to
  the output. An uncompressed length of 0 is an empty chunk like any other.
\<close>

function decoder_run ::
  "(bytes \<Rightarrow> error + bytes) \<Rightarrow> decoder_cursor \<Rightarrow> bytes \<Rightarrow> bytes
     \<Rightarrow> decode_error + bytes \<times> decoder_state" where
  "decoder_run uncompress AwaitUncompressedLen buf out =
     (if length buf < 4 then Inr (out, \<lparr>buffer = buf, cursor = AwaitUncompressedLen\<rparr>)
      else decoder_run uncompress (AwaitCompressedLen (big_endian_value (take 4 buf)))
             (drop 4 buf) out)"
| "decoder_run uncompress (AwaitCompressedLen ulen) buf out =
     (if length buf < 4 then Inr (out, \<lparr>buffer = buf, cursor = AwaitCompressedLen ulen\<rparr>)
      else decoder_run uncompress (AwaitCompressedBody ulen (big_endian_value (take 4 buf)))
             (drop 4 buf) out)"
| "decoder_run uncompress (AwaitCompressedBody ulen clen) buf out =
     (if int (length buf) < clen
      then Inr (out, \<lparr>buffer = buf, cursor = AwaitCompressedBody ulen clen\<rparr>)
      else (case uncompress (take (nat clen) buf) of
              Inl e \<Rightarrow> Inl CodecDecodeFailure
            | Inr decoded \<Rightarrow>
                if int (length decoded) \<noteq> ulen then Inl LengthMismatch
                else decoder_run uncompress AwaitUncompressedLen (drop (nat clen) buf)
                       (out @ decoded)))"
  by pat_completeness auto
termination
  by (relation "measure (\<lambda>(u, c, buf, out).
        3 * length buf + (case c of AwaitCompressedBody a b \<Rightarrow> 1 | _ \<Rightarrow> 0))")
     (auto split: decoder_cursor.splits)

text \<open>
  Modelled from the spec: \<^verbatim>\<open>decompress(piece)\<close> adds the piece to the buffer, returns the
  output that the buffered bytes now yield and keeps the unconsumed partial frame.
\<close>

definition decompress ::
  "(bytes \<Rightarrow> error + bytes) \<Rightarrow> decoder_state \<Rightarrow> bytes
     \<Rightarrow> decode_error + bytes \<times> decoder_state" where
  "decompress uncompress st piece = decoder_run uncompress (cursor st) (buffer st @ piece) []"

text \<open>
  Modelled from the spec: \<^verbatim>\<open>flush()\<close> fails when bytes that do not form a complete frame are
  still buffered.
\<close>

definition flush :: "decoder_state \<Rightarrow> decode_error + unit" where
  "flush st =
     (if buffer st = [] \<and> cursor st = AwaitUncompressedLen then Inr ()
      else Inl TruncatedStream)"

text \<open>
  Feeding pieces in order to one decoder and concatenating what each call returns, as the
  loop of \<^verbatim>\<open>test_random\<close> does.
\<close>

fun decompress_pieces ::
  "(bytes \<Rightarrow> error + bytes) \<Rightarrow> decoder_state \<Rightarrow> bytes list
     \<Rightarrow> decode_error + bytes \<times> decoder_state" where
  "decompress_pieces uncompress st [] = Inr ([], st)"
| "decompress_pieces uncompress st (piece # pieces) =
     (case decompress uncompress st piece of
        Inl e \<Rightarrow> Inl e
      | Inr (out1, st1) \<Rightarrow>
          (case decompress_pieces uncompress st1 pieces of
             Inl e \<Rightarrow> Inl e
           | Inr (out2, st2) \<Rightarrow> Inr (out1 @ out2, st2)))"

subsection \<open>Codec instances\<close>

text \<open>
  The codec is a parameter of the model. Closed statements need a concrete one. The
  stored codec puts one zero byte before the data; it round-trips, never returns an empty
  block and stays within Snappy's documented bound of \<open>32 + n + n div 6\<close> bytes. On the
  empty input it returns the single byte \<open>0\<close>, as Snappy does.
\<close>

definition stored_compress :: "bytes \<Rightarrow> bytes" where
  "stored_compress data = 0 # data"

fun stored_uncompress :: "bytes \<Rightarrow> error + bytes" where
  "stored_uncompress [] = Inl (UncompressError Codec_rejected_block)"
| "stored_uncompress (tag # data) =
     (if tag = 0 then Inr data else Inl (UncompressError Codec_rejected_block))"


declare stream_compress_loop.simps [simp del]
declare stream_decompress.simps [simp del]
declare decoder_run.simps [simp del]

section \<open>Auxiliary facts\<close>

subsection \<open>Length fields\<close>

lemma uint_byte_of_int: "uint (word_of_int k :: byte) = k mod 256"
  by (simp add: uint_word_of_int)

lemma be_combine:
  fixes n :: int
  assumes "m32 = n" "m32 = 16777216 * x3 + m24" "m24 = 65536 * x2 + m16"
    "m16 = 256 * x1 + x0"
  shows "x3 * 16777216 + x2 * 65536 + x1 * 256 + x0 = n"
  using assms by simp

lemma be_digits:
  fixes n :: int
  assumes "0 \<le> n" "n < 4294967296"
  shows "(n div 16777216) mod 256 * 16777216 + (n div 65536) mod 256 * 65536
           + (n div 256) mod 256 * 256 + n mod 256 = n"
proof -
  have e: "(16777216::int) * 256 = 4294967296" "(65536::int) * 256 = 16777216"
    "(256::int) * 256 = 65536"
    by simp_all
  have "n mod (16777216 * 256) = 16777216 * (n div 16777216 mod 256) + n mod 16777216"
    by (rule zmod_zmult2_eq) simp
  then have a: "n mod 4294967296 = 16777216 * (n div 16777216 mod 256) + n mod 16777216"
    unfolding e .
  have "n mod (65536 * 256) = 65536 * (n div 65536 mod 256) + n mod 65536"
    by (rule zmod_zmult2_eq) simp
  then have b: "n mod 16777216 = 65536 * (n div 65536 mod 256) + n mod 65536"
    unfolding e .
  have "n mod (256 * 256) = 256 * (n div 256 mod 256) + n mod 256"
    by (rule zmod_zmult2_eq) simp
  then have c: "n mod 65536 = 256 * (n div 256 mod 256) + n mod 256"
    unfolding e .
  have d: "n mod 4294967296 = n"
    using assms by (rule mod_pos_pos_trivial)
  show ?thesis
    by (rule be_combine [OF d a b c])
qed

lemma pack_I_Inr:
  "pack_I n = Inr h \<longleftrightarrow>
     0 \<le> n \<and> n < 4294967296 \<and>
     h = [word_of_int (n div 16777216), word_of_int (n div 65536),
          word_of_int (n div 256), word_of_int n]"
  by (auto simp: pack_I_def)

lemma unpack_I_four:
  "unpack_I [b3, b2, b1, b0] =
     Inr (uint b3 * 16777216 + uint b2 * 65536 + uint b1 * 256 + uint b0)"
  by simp

lemma big_endian_value_four:
  "big_endian_value [b3, b2, b1, b0] =
     uint b3 * 16777216 + uint b2 * 65536 + uint b1 * 256 + uint b0"
  by (simp add: big_endian_value_def)

lemma unpack_pack_I:
  assumes "pack_I n = Inr h"
  shows "unpack_I h = Inr n"
proof -
  from assms have r: "0 \<le> n" "n < 4294967296"
    and h: "h = [word_of_int (n div 16777216), word_of_int (n div 65536),
                 word_of_int (n div 256), word_of_int n]"
    by (simp_all add: pack_I_Inr)
  show ?thesis
    unfolding h unpack_I_four uint_byte_of_int be_digits [OF r] by (rule refl)
qed

lemma big_endian_value_pack_I:
  assumes "pack_I n = Inr h"
  shows "big_endian_value h = n"
proof -
  from assms have r: "0 \<le> n" "n < 4294967296"
    and h: "h = [word_of_int (n div 16777216), word_of_int (n div 65536),
                 word_of_int (n div 256), word_of_int n]"
    by (simp_all add: pack_I_Inr)
  show ?thesis
    unfolding h big_endian_value_four uint_byte_of_int be_digits [OF r] by (rule refl)
qed

lemma pack_I_length: "pack_I n = Inr h \<Longrightarrow> length h = 4"
  by (simp add: pack_I_Inr)

lemma fread_append:
  "int (length a) = n \<Longrightarrow> fread n (a @ tail) = (a, tail)"
  by (auto simp: fread_def)

lemma read_int_empty: "read_int [] = (Inr 0, [])"
  by (simp add: read_int_def fread_def)

lemma read_int_field:
  "length h = 4 \<Longrightarrow> read_int (h @ tail) = (unpack_I h, tail)"
  by (auto simp: read_int_def fread_def)

lemma unpack_I_short: "length t < 4 \<Longrightarrow> unpack_I t = Inl StructError"
  by (cases t rule: unpack_I.cases) simp_all

lemma read_int_short:
  "t \<noteq> [] \<Longrightarrow> length t < 4 \<Longrightarrow> read_int t = (Inl StructError, [])"
  by (simp add: read_int_def fread_def unpack_I_short)

lemma add_chunk_Inr:
  "add_chunk compress x = Inr fr \<longleftrightarrow>
     (\<exists>h1 h2. pack_I (int (length x)) = Inr h1 \<and>
              pack_I (int (length (compress x))) = Inr h2 \<and>
              fr = h1 @ h2 @ compress x)"
  by (auto simp: add_chunk_def prepare_num_def Let_def split: sum.splits)

lemma stream_decompress_frame:
  assumes "length h1 = 4" "unpack_I h1 = Inr ulen" "ulen \<noteq> 0"
    and "length h2 = 4" "unpack_I h2 = Inr clen" "clen \<noteq> 0"
    and "int (length body) = clen"
  shows "stream_decompress uncompress \<lparr>src = h1 @ h2 @ body @ tail, dst = w\<rparr> =
           (case uncompress body of
              Inl e \<Rightarrow> (Some e, \<lparr>src = tail, dst = w\<rparr>)
            | Inr out \<Rightarrow>
                if int (length out) \<noteq> ulen
                then (Some (UncompressError (Chunk_length_mismatch ulen (int (length out)))),
                      \<lparr>src = tail, dst = w\<rparr>)
                else stream_decompress uncompress \<lparr>src = tail, dst = w @ out\<rparr>)"
  using assms
  by (subst stream_decompress.simps)
     (simp add: read_int_field fread_append split: sum.splits)

lemma stream_decompress_add_chunk:
  assumes "add_chunk compress x = Inr fr" "x \<noteq> []" "compress x \<noteq> []"
    and "uncompress (compress x) = Inr x"
  shows "stream_decompress uncompress \<lparr>src = fr @ tail, dst = w\<rparr> =
           stream_decompress uncompress \<lparr>src = tail, dst = w @ x\<rparr>"
proof -
  from assms(1) obtain h1 h2 where
    h1: "pack_I (int (length x)) = Inr h1" and
    h2: "pack_I (int (length (compress x))) = Inr h2" and
    fr: "fr = h1 @ h2 @ compress x"
    by (auto simp: add_chunk_Inr)
  have "stream_decompress uncompress \<lparr>src = h1 @ h2 @ compress x @ tail, dst = w\<rparr> =
          stream_decompress uncompress \<lparr>src = tail, dst = w @ x\<rparr>"
    using assms(2-4)
    by (subst stream_decompress_frame
          [OF pack_I_length [OF h1] unpack_pack_I [OF h1] _
              pack_I_length [OF h2] unpack_pack_I [OF h2] _ refl])
       simp_all
  then show ?thesis
    by (simp add: fr)
qed

lemma stream_decompress_end:
  "stream_decompress uncompress \<lparr>src = [], dst = w\<rparr> = (None, \<lparr>src = [], dst = w\<rparr>)"
  by (subst stream_decompress.simps) (simp add: read_int_empty)

lemma stream_decompress_add_chunks:
  assumes "add_chunks compress xs = Inr enc"
    and "\<And>x. x \<in> set xs \<Longrightarrow> x \<noteq> [] \<and> compress x \<noteq> [] \<and> uncompress (compress x) = Inr x"
  shows "stream_decompress uncompress \<lparr>src = enc @ tail, dst = w\<rparr> =
           stream_decompress uncompress \<lparr>src = tail, dst = w @ concat xs\<rparr>"
  using assms
proof (induction xs arbitrary: enc w)
  case Nil
  then show ?case by simp
next
  case (Cons x xs)
  from Cons.prems(1) obtain fr enc' where
    fr: "add_chunk compress x = Inr fr" and
    enc': "add_chunks compress xs = Inr enc'" and
    enc: "enc = fr @ enc'"
    by (auto split: sum.splits)
  have x: "x \<noteq> []" "compress x \<noteq> []" "uncompress (compress x) = Inr x"
    using Cons.prems(2) [of x] by simp_all
  have "stream_decompress uncompress \<lparr>src = fr @ (enc' @ tail), dst = w\<rparr> =
          stream_decompress uncompress \<lparr>src = enc' @ tail, dst = w @ x\<rparr>"
    by (rule stream_decompress_add_chunk
          [where compress = compress and uncompress = uncompress, OF fr x])
  also have "\<dots> = stream_decompress uncompress \<lparr>src = tail, dst = (w @ x) @ concat xs\<rparr>"
    by (rule Cons.IH [OF enc']) (simp add: Cons.prems(2))
  finally show ?case
    by (simp add: enc)
qed

subsection \<open>The stored codec\<close>

lemma stored_roundtrip: "stored_uncompress (stored_compress x) = Inr x"
  by (simp add: stored_compress_def)

lemma stored_nonempty: "stored_compress x \<noteq> []"
  by (simp add: stored_compress_def)

lemma stored_bound: "length (stored_compress x) \<le> 32 + length x + length x div 6"
  by (simp add: stored_compress_def)

subsection \<open>Single steps of \<open>stream_decompress\<close>\<close>

lemma pack_I_zero: "pack_I 0 = Inr [0, 0, 0, 0]"
  by (simp add: pack_I_def)

lemma pack_I_small: "0 \<le> n \<Longrightarrow> n < 256 \<Longrightarrow> pack_I n = Inr [0, 0, 0, word_of_int n]"
  by (simp add: pack_I_def)

lemma stream_decompress_zero:
  assumes "length h = 4" "unpack_I h = Inr 0"
  shows "stream_decompress uncompress \<lparr>src = h @ tail, dst = w\<rparr> =
           (None, \<lparr>src = tail, dst = w\<rparr>)"
  using assms by (subst stream_decompress.simps) (simp add: read_int_field)

lemma stream_decompress_short:
  assumes "t \<noteq> []" "length t < 4"
  shows "stream_decompress uncompress \<lparr>src = t, dst = w\<rparr> =
           (Some StructError, \<lparr>src = [], dst = w\<rparr>)"
  using assms by (subst stream_decompress.simps) (simp add: read_int_short)

lemma add_chunk_empty:
  assumes "add_chunk compress [] = Inr fr"
  shows "\<exists>h2. length h2 = 4 \<and> fr = [0, 0, 0, 0] @ h2 @ compress []"
  using assms by (auto simp: add_chunk_Inr pack_I_zero pack_I_length)

section \<open>The claims\<close>

subsection \<open>C1: the round trip of the whole-stream functions\<close>

text \<open>The sizing function returns a float for every argument, and the loop of
  \<open>stream_compress\<close> raises on a float block size at its first read.\<close>

lemma max_input_size_float:
  "\<exists>x. hadoop_snappy_max_input_size block_size = Inr (PyFloat x)"
  by (simp add: hadoop_snappy_max_input_size_def Let_def)

lemma stream_compress_loop_float:
  "stream_compress_loop compress (PyFloat x) f = (Some TypeError, f)"
  by (subst stream_compress_loop.simps) (simp add: read_size_def)

text \<open>
  With a whole block size the loop does what the claim states: for a codec that
  round-trips, never returns an empty block and stays within \<open>32 + n + n div 6\<close> bytes,
  it reads all of \<open>d\<close>, and \<open>stream_decompress\<close> on what it wrote gives back \<open>d\<close>.
\<close>

lemma stream_compress_loop_empty:
  "stream_compress_loop compress (PyInt bs) \<lparr>src = [], dst = w\<rparr> =
     (None, \<lparr>src = [], dst = w\<rparr>)"
  by (subst stream_compress_loop.simps) (simp add: read_size_def fread_def)

lemma stream_compress_loop_chunk:
  assumes "0 < bs" "d \<noteq> []" "add_chunk compress (take (nat bs) d) = Inr fr"
  shows "stream_compress_loop compress (PyInt bs) \<lparr>src = d, dst = w\<rparr> =
           stream_compress_loop compress (PyInt bs) \<lparr>src = drop (nat bs) d, dst = w @ fr\<rparr>"
proof -
  have "fr \<noteq> []"
    using assms(3) by (auto simp: add_chunk_Inr pack_I_Inr)
  then show ?thesis
    using assms by (subst stream_compress_loop.simps) (simp add: read_size_def fread_def)
qed

lemma add_chunk_block:
  assumes "0 < bs" "bs + bs div 6 + 32 < 2 ^ 32"
    and bd: "length (compress x) \<le> 32 + length x + length x div 6"
    and "int (length x) \<le> bs"
  shows "\<exists>fr. add_chunk compress x = Inr fr"
proof -
  have "int (length (compress x)) \<le> int (32 + length x + length x div 6)"
    using bd by (rule iffD2 [OF of_nat_le_iff])
  also have "\<dots> = 32 + int (length x) + int (length x) div 6"
    by (simp add: zdiv_int)
  also have "\<dots> \<le> 32 + bs + bs div 6"
    using assms(4) by linarith
  finally have c: "int (length (compress x)) < 2 ^ 32"
    using assms(2) by linarith
  have "int (length x) < 2 ^ 32"
    using assms(1,2,4) by linarith
  with c show ?thesis
    by (simp add: add_chunk_Inr pack_I_def)
qed

lemma stream_compress_loop_roundtrip:
  assumes bs: "0 < bs" "bs + bs div 6 + 32 < 2 ^ 32"
    and rt: "\<And>x. uncompress (compress x) = Inr x"
    and ne: "\<And>x. compress x \<noteq> []"
    and bd: "\<And>x. length (compress x) \<le> 32 + length x + length x div 6"
  shows "\<exists>enc. stream_compress_loop compress (PyInt bs) \<lparr>src = d, dst = w0\<rparr> =
                  (None, \<lparr>src = [], dst = w0 @ enc\<rparr>) \<and>
               (\<forall>w. stream_decompress uncompress \<lparr>src = enc, dst = w\<rparr> =
                      (None, \<lparr>src = [], dst = w @ d\<rparr>))"
proof (induction d arbitrary: w0 rule: length_induct)
  case (1 d)
  show ?case
  proof (cases "d = []")
    case True
    then have "stream_compress_loop compress (PyInt bs) \<lparr>src = d, dst = w0\<rparr> =
                 (None, \<lparr>src = [], dst = w0 @ []\<rparr>)"
      by (simp add: stream_compress_loop_empty)
    moreover have "\<forall>w. stream_decompress uncompress \<lparr>src = [], dst = w\<rparr> =
                         (None, \<lparr>src = [], dst = w @ d\<rparr>)"
      using True by (simp add: stream_decompress_end)
    ultimately show ?thesis
      by blast
  next
    case False
    define buf where "buf = take (nat bs) d"
    define rest where "rest = drop (nat bs) d"
    have buf: "buf \<noteq> []" "int (length buf) \<le> bs" and d: "d = buf @ rest"
      using False bs(1) by (auto simp: buf_def rest_def)
    from add_chunk_block [where compress = compress and x = buf, OF bs bd buf(2)]
    obtain fr where
      fr: "add_chunk compress buf = Inr fr"
      by blast
    have "length rest < length d"
      using d buf(1) by simp
    with "1.IH" obtain enc' where
      c: "stream_compress_loop compress (PyInt bs) \<lparr>src = rest, dst = w0 @ fr\<rparr> =
            (None, \<lparr>src = [], dst = (w0 @ fr) @ enc'\<rparr>)" and
      u: "\<And>w. stream_decompress uncompress \<lparr>src = enc', dst = w\<rparr> =
            (None, \<lparr>src = [], dst = w @ rest\<rparr>)"
      by blast
    have "stream_compress_loop compress (PyInt bs) \<lparr>src = d, dst = w0\<rparr> =
            (None, \<lparr>src = [], dst = w0 @ (fr @ enc')\<rparr>)"
      using stream_compress_loop_chunk [OF bs(1) False, of compress fr w0] fr c
      by (simp add: buf_def rest_def)
    moreover have "stream_decompress uncompress \<lparr>src = fr @ enc', dst = w\<rparr> =
                     (None, \<lparr>src = [], dst = w @ d\<rparr>)" for w
      using stream_decompress_add_chunk
              [where compress = compress and uncompress = uncompress and tail = enc'
                 and w = w, OF fr buf(1) ne rt]
      by (simp add: u d)
    ultimately show ?thesis
      by blast
  qed
qed

text \<open>
  C1. The claim is the round trip: \<open>stream_compress\<close> on a source \<open>d\<close>, then
  \<open>stream_decompress\<close> on the bytes produced, writes exactly \<open>d\<close>. The code does not get
  that far. \<open>hadoop_snappy_max_input_size\<close> divides with \<^verbatim>\<open>/\<close> and returns a float, for the
  default block size as for any other; \<^verbatim>\<open>src.read\<close> rejects a float size; so
  \<open>stream_compress\<close> raises \<^verbatim>\<open>TypeError\<close> on every source, the empty one included, with
  nothing read and nothing written.
\<close>

theorem stream_compress_raises_TypeError:
  "stream_compress compress blocksize \<lparr>src = d, dst = w\<rparr> =
     (Some TypeError, \<lparr>src = d, dst = w\<rparr>)"
proof -
  obtain x where "hadoop_snappy_max_input_size blocksize = Inr (PyFloat x)"
    using max_input_size_float by blast
  then show ?thesis
    by (simp add: stream_compress_def stream_compress_loop_float)
qed

theorem stream_compress_raises_TypeError_witness:
  "stream_compress stored_compress None \<lparr>src = [1, 2, 3], dst = []\<rparr> =
     (Some TypeError, \<lparr>src = [1, 2, 3], dst = []\<rparr>) \<and>
   stream_compress stored_compress None \<lparr>src = [], dst = []\<rparr> =
     (Some TypeError, \<lparr>src = [], dst = []\<rparr>)"
  using stream_compress_raises_TypeError [of stored_compress None "[1, 2, 3]" "[]"]
    stream_compress_raises_TypeError [of stored_compress None "[]" "[]"]
  by simp

subsection \<open>C2: one frame per \<open>add_chunk\<close>\<close>

text \<open>
  C2, as amended. For every byte string \<open>data\<close> whose length and whose compressed length are
  below \<open>2 ^ 32\<close>, \<open>add_chunk\<close> returns exactly one frame: four bytes that are the length of
  \<open>data\<close> as an unsigned big-endian number, four bytes that are the length of
  \<open>compress data\<close> in the same encoding, and \<open>compress data\<close>, the codec's output for the
  whole input. For the empty input the first field is four zero bytes.
\<close>

theorem add_chunk_single_frame:
  assumes "length data < 2 ^ 32" "length (compress data) < 2 ^ 32"
  shows "\<exists>h1 h2. add_chunk compress data = Inr (h1 @ h2 @ compress data) \<and>
           length h1 = 4 \<and> big_endian_value h1 = int (length data) \<and>
           length h2 = 4 \<and> big_endian_value h2 = int (length (compress data)) \<and>
           (data = [] \<longrightarrow> h1 = [0, 0, 0, 0])"
proof -
  from assms(1) have "int (length data) < 2 ^ 32"
    by (metis of_nat_less_iff of_nat_numeral of_nat_power)
  then obtain h1 where h1: "pack_I (int (length data)) = Inr h1"
    by (simp add: pack_I_def)
  from assms(2) have "int (length (compress data)) < 2 ^ 32"
    by (metis of_nat_less_iff of_nat_numeral of_nat_power)
  then obtain h2 where h2: "pack_I (int (length (compress data))) = Inr h2"
    by (simp add: pack_I_def)
  have "add_chunk compress data = Inr (h1 @ h2 @ compress data)"
    using h1 h2 by (simp add: add_chunk_Inr)
  moreover have "data = [] \<longrightarrow> h1 = [0, 0, 0, 0]"
    using h1 by (auto simp: pack_I_zero)
  ultimately show ?thesis
    using pack_I_length [OF h1] pack_I_length [OF h2]
      big_endian_value_pack_I [OF h1] big_endian_value_pack_I [OF h2]
    by blast
qed

text \<open>The empty input with the stored codec: the frame is \<open>00 00 00 00\<close>, a length field
  of value 1 and the codec's single byte.\<close>

theorem add_chunk_single_frame_witness:
  "\<exists>h1 h2. add_chunk stored_compress [] = Inr (h1 @ h2 @ [0]) \<and>
     h1 = [0, 0, 0, 0] \<and> length h2 = 4 \<and> big_endian_value h2 = 1"
  using add_chunk_single_frame [of "[]" stored_compress]
  by (auto simp: stored_compress_def)

text \<open>
  The claim as stated covers every byte string. A string of \<open>2 ^ 32\<close> bytes has a length
  that \<^verbatim>\<open>struct.pack('>I', ...)\<close> rejects: \<open>add_chunk\<close> raises \<^verbatim>\<open>struct.error\<close> and returns no
  frame. The first length field is packed before the codec runs, so this holds for any
  codec.
\<close>

theorem add_chunk_oversized_counterexample:
  "add_chunk stored_compress (replicate (2 ^ 32) 0) = Inl StructError"
  by (simp add: add_chunk_def prepare_num_def pack_I_def)

subsection \<open>C3: fragmentation invariance of the incremental decoder\<close>

text \<open>
  The run of the state machine on a buffer that is extended later is the run on the
  buffer, continued on what it left plus the extension.
\<close>

lemma decoder_run_append:
  "decoder_run u c (buf @ x) out =
     (case decoder_run u c buf out of
        Inl e \<Rightarrow> Inl e
      | Inr (out', st) \<Rightarrow> decoder_run u (cursor st) (buffer st @ x) out')"
proof (induction u c buf out rule: decoder_run.induct)
  case (1 u buf out)
  show ?case
  proof (cases "length buf < 4")
    case True
    then show ?thesis
      by (simp add: decoder_run.simps(1) [of u buf out])
  next
    case False
    with 1 show ?thesis
      by (simp add: decoder_run.simps(1) [of u buf out]
            decoder_run.simps(1) [of u "buf @ x" out])
  qed
next
  case (2 u ulen buf out)
  show ?case
  proof (cases "length buf < 4")
    case True
    then show ?thesis
      by (simp add: decoder_run.simps(2) [of u ulen buf out])
  next
    case False
    with 2 show ?thesis
      by (simp add: decoder_run.simps(2) [of u ulen buf out]
            decoder_run.simps(2) [of u ulen "buf @ x" out])
  qed
next
  case (3 u ulen clen buf out)
  show ?case
  proof (cases "int (length buf) < clen")
    case True
    then show ?thesis
      by (simp add: decoder_run.simps(3) [of u ulen clen buf out])
  next
    case False
    then have n: "nat clen \<le> length buf"
      by linarith
    show ?thesis
    proof (cases "u (take (nat clen) buf)")
      case (Inl e)
      with False n show ?thesis
        by (simp add: decoder_run.simps(3) [of u ulen clen buf out]
              decoder_run.simps(3) [of u ulen clen "buf @ x" out])
    next
      case (Inr decoded)
      with False n 3 [OF False Inr] show ?thesis
        by (simp add: decoder_run.simps(3) [of u ulen clen buf out]
              decoder_run.simps(3) [of u ulen clen "buf @ x" out])
    qed
  qed
qed

lemma decoder_run_acc:
  "decoder_run u c buf (o1 @ out) =
     map_sum id (\<lambda>(out', st). (o1 @ out', st)) (decoder_run u c buf out)"
proof (induction u c buf out rule: decoder_run.induct)
  case (1 u buf out)
  then show ?case
    by (simp add: decoder_run.simps(1) [of u buf])
next
  case (2 u ulen buf out)
  then show ?case
    by (simp add: decoder_run.simps(2) [of u ulen buf])
next
  case (3 u ulen clen buf out)
  then show ?case
    by (simp add: decoder_run.simps(3) [of u ulen clen buf] split: sum.splits)
qed

lemma decoder_run_stuck:
  "decoder_run u c buf out = Inr (out', st) \<Longrightarrow>
   decoder_run u (cursor st) (buffer st) out2 = Inr (out2, st)"
proof (induction u c buf out rule: decoder_run.induct)
  case (1 u buf out)
  then show ?case
    by (cases "length buf < 4")
       (auto simp: decoder_run.simps(1) [of u buf])
next
  case (2 u ulen buf out)
  then show ?case
    by (cases "length buf < 4")
       (auto simp: decoder_run.simps(2) [of u ulen buf])
next
  case (3 u ulen clen buf out)
  then show ?case
    by (cases "int (length buf) < clen")
       (auto simp: decoder_run.simps(3) [of u ulen clen buf] split: sum.splits if_splits)
qed

lemma decompress_pieces_run:
  assumes "\<And>out. decoder_run u (cursor st) (buffer st) out = Inr (out, st)"
  shows "decompress_pieces u st pieces = decoder_run u (cursor st) (buffer st @ concat pieces) []"
  using assms
proof (induction pieces arbitrary: st)
  case Nil
  then show ?case by simp
next
  case (Cons p ps)
  show ?case
  proof (cases "decoder_run u (cursor st) (buffer st @ p) []")
    case (Inl e)
    then show ?thesis
      using decoder_run_append [of u "cursor st" "buffer st @ p" "concat ps" "[]"]
      by (simp add: decompress_def)
  next
    case (Inr r)
    obtain out1 st1 where r: "r = (out1, st1)"
      by (cases r)
    have stuck: "decoder_run u (cursor st1) (buffer st1) out = Inr (out, st1)" for out
      using Inr unfolding r by (rule decoder_run_stuck)
    have "decoder_run u (cursor st) (buffer st @ p @ concat ps) [] =
            decoder_run u (cursor st1) (buffer st1 @ concat ps) (out1 @ [])"
      using decoder_run_append [of u "cursor st" "buffer st @ p" "concat ps" "[]"] Inr r
      by simp
    also have "\<dots> = map_sum id (\<lambda>(out', st'). (out1 @ out', st'))
                       (decoder_run u (cursor st1) (buffer st1 @ concat ps) [])"
      by (rule decoder_run_acc)
    also have "\<dots> = map_sum id (\<lambda>(out', st'). (out1 @ out', st'))
                       (decompress_pieces u st1 ps)"
      using Cons.IH [of st1] stuck by simp
    finally show ?thesis
      using Inr r by (simp add: decompress_def split: sum.splits)
  qed
qed

lemma decoder_run_frame:
  assumes "add_chunk compress d = Inr fr" "uncompress (compress d) = Inr d"
  shows "decoder_run uncompress AwaitUncompressedLen (fr @ tail) out =
           decoder_run uncompress AwaitUncompressedLen tail (out @ d)"
proof -
  from assms(1) obtain h1 h2 where
    p1: "pack_I (int (length d)) = Inr h1" and
    p2: "pack_I (int (length (compress d))) = Inr h2" and
    fr: "fr = h1 @ h2 @ compress d"
    by (auto simp: add_chunk_Inr)
  note l1 = pack_I_length [OF p1] and l2 = pack_I_length [OF p2]
  note v1 = big_endian_value_pack_I [OF p1] and v2 = big_endian_value_pack_I [OF p2]
  have "decoder_run uncompress AwaitUncompressedLen (h1 @ h2 @ compress d @ tail) out =
          decoder_run uncompress (AwaitCompressedLen (int (length d)))
            (h2 @ compress d @ tail) out"
    by (subst decoder_run.simps) (simp add: l1 v1)
  also have "\<dots> = decoder_run uncompress
                      (AwaitCompressedBody (int (length d)) (int (length (compress d))))
                      (compress d @ tail) out"
    by (subst decoder_run.simps) (simp add: l2 v2)
  also have "\<dots> = decoder_run uncompress AwaitUncompressedLen tail (out @ d)"
    by (subst decoder_run.simps) (simp add: assms(2))
  finally show ?thesis
    by (simp add: fr)
qed

lemma decoder_run_frames:
  assumes "add_chunks compress ds = Inr enc"
    and "\<forall>x \<in> set ds. uncompress (compress x) = Inr x"
  shows "decoder_run uncompress AwaitUncompressedLen (enc @ tail) out =
           decoder_run uncompress AwaitUncompressedLen tail (out @ concat ds)"
  using assms
proof (induction ds arbitrary: enc out)
  case Nil
  then show ?case by simp
next
  case (Cons x xs)
  from Cons.prems(1) obtain fr enc' where
    fr: "add_chunk compress x = Inr fr" and
    enc': "add_chunks compress xs = Inr enc'" and
    enc: "enc = fr @ enc'"
    by (auto split: sum.splits)
  have x: "uncompress (compress x) = Inr x"
    using Cons.prems(2) by simp
  have "decoder_run uncompress AwaitUncompressedLen (fr @ (enc' @ tail)) out =
          decoder_run uncompress AwaitUncompressedLen (enc' @ tail) (out @ x)"
    by (rule decoder_run_frame
          [where compress = compress and uncompress = uncompress, OF fr x])
  also have "\<dots> = decoder_run uncompress AwaitUncompressedLen tail ((out @ x) @ concat xs)"
    using Cons.prems(2) by (intro Cons.IH [OF enc']) simp
  finally show ?case
    by (simp add: enc)
qed

lemma decoder_run_idle:
  "decoder_run u AwaitUncompressedLen [] out = Inr (out, new_decoder)"
  by (subst decoder_run.simps) (simp add: new_decoder_def)

text \<open>
  C3. Let \<open>enc\<close> be the frames that \<open>add_chunk\<close> returns for the chunks \<open>ds\<close>, one after the
  other (a single payload \<open>d\<close> is the list \<open>[d]\<close>), and let the codec round-trip on each
  chunk. For every list of pieces whose concatenation is \<open>enc\<close>, empty pieces and
  single bytes included, feeding the pieces in order to one fresh decoder and
  concatenating what each \<open>decompress\<close> returns gives the concatenation of \<open>ds\<close>; the
  decoder ends with an empty buffer, so \<open>flush\<close> succeeds.
\<close>

theorem fragmentation_invariance:
  assumes "add_chunks compress ds = Inr enc"
    and "\<forall>x \<in> set ds. uncompress (compress x) = Inr x"
    and "concat pieces = enc"
  shows "decompress_pieces uncompress new_decoder pieces = Inr (concat ds, new_decoder) \<and>
         flush new_decoder = Inr ()"
proof -
  have "decompress_pieces uncompress new_decoder pieces =
          decoder_run uncompress (cursor new_decoder) (buffer new_decoder @ concat pieces) []"
    by (rule decompress_pieces_run) (simp add: new_decoder_def decoder_run_idle)
  also have "\<dots> = decoder_run uncompress AwaitUncompressedLen (enc @ []) []"
    by (simp add: new_decoder_def assms(3))
  also have "\<dots> = decoder_run uncompress AwaitUncompressedLen [] ([] @ concat ds)"
    by (rule decoder_run_frames [OF assms(1,2)])
  finally show ?thesis
    by (simp add: decoder_run_idle flush_def new_decoder_def)
qed

text \<open>Two frames cut into five pieces, one of them empty, with cuts inside length fields
  and across the frame boundary.\<close>

theorem fragmentation_invariance_witness:
  "decompress_pieces stored_uncompress new_decoder
     [[0], [0, 0, 1, 0, 0, 0], [], [2, 0, 7, 0, 0, 0, 2, 0, 0], [0, 3, 0, 8, 9]] =
     Inr ([7, 8, 9], new_decoder)"
proof -
  have a: "add_chunks stored_compress [[7], [8, 9]] =
             Inr [0, 0, 0, 1, 0, 0, 0, 2, 0, 7, 0, 0, 0, 2, 0, 0, 0, 3, 0, 8, 9]"
    by (simp add: add_chunk_def prepare_num_def pack_I_small stored_compress_def)
  have b: "\<forall>x \<in> set [[7], [8, 9 :: byte]]. stored_uncompress (stored_compress x) = Inr x"
    by (simp add: stored_compress_def)
  have c: "concat [[0], [0, 0, 1, 0, 0, 0], [], [2, 0, 7, 0, 0, 0, 2, 0, 0], [0, 3, 0, 8, 9]] =
             [0, 0, 0, 1, 0, 0, 0, 2, 0, 7, 0, 0, 0, 2, 0, 0, 0, 3, 0, 8, 9 :: byte]"
    by simp
  show ?thesis
    using fragmentation_invariance [OF a b c] by simp
qed

subsection \<open>C4: truncated frames\<close>

lemma stream_decompress_no_second_field:
  assumes "length h1 = 4" "unpack_I h1 = Inr ulen" "ulen \<noteq> 0"
  shows "stream_decompress uncompress \<lparr>src = h1, dst = w\<rparr> =
           (Some (UncompressError Failed_to_read_compressed_chunk_length),
            \<lparr>src = [], dst = w\<rparr>)"
  using assms read_int_field [of h1 "[]"]
  by (subst stream_decompress.simps) (simp add: read_int_empty)

lemma stream_decompress_short_second_field:
  assumes "length h1 = 4" "unpack_I h1 = Inr ulen" "ulen \<noteq> 0"
    and "t \<noteq> []" "length t < 4"
  shows "stream_decompress uncompress \<lparr>src = h1 @ t, dst = w\<rparr> =
           (Some StructError, \<lparr>src = [], dst = w\<rparr>)"
  using assms
  by (subst stream_decompress.simps) (simp add: read_int_field read_int_short)

lemma stream_decompress_short_body:
  assumes "length h1 = 4" "unpack_I h1 = Inr ulen" "ulen \<noteq> 0"
    and "length h2 = 4" "unpack_I h2 = Inr clen"
    and "int (length b) < clen"
  shows "stream_decompress uncompress \<lparr>src = h1 @ h2 @ b, dst = w\<rparr> =
           (Some (UncompressError Failed_to_read_compressed_chunk), \<lparr>src = [], dst = w\<rparr>)"
  using assms
  by (subst stream_decompress.simps) (auto simp: read_int_field fread_def)

text \<open>
  C4, as amended. Let \<open>fr\<close> be the frame that \<open>add_chunk\<close> returns for a payload that is not
  empty. On every proper non-empty prefix of \<open>fr\<close>, \<open>stream_decompress\<close> raises an error and
  writes nothing: \<^verbatim>\<open>struct.error\<close> when the cut is inside a length field,
  \<^verbatim>\<open>UncompressError\<close> when the cut is behind the first field or inside the body. This holds
  for any codec: the codec is not called.
\<close>

theorem truncated_frame_raises:
  assumes "add_chunk compress d = Inr fr" "d \<noteq> []" "0 < k" "k < length fr"
  shows "stream_decompress uncompress \<lparr>src = take k fr, dst = w\<rparr> =
           (Some (if k = 4 then UncompressError Failed_to_read_compressed_chunk_length
                  else if k < 8 then StructError
                  else UncompressError Failed_to_read_compressed_chunk),
            \<lparr>src = [], dst = w\<rparr>)"
proof -
  from assms(1) obtain h1 h2 where
    p1: "pack_I (int (length d)) = Inr h1" and
    p2: "pack_I (int (length (compress d))) = Inr h2" and
    fr: "fr = h1 @ h2 @ compress d"
    by (auto simp: add_chunk_Inr)
  note l1 = pack_I_length [OF p1] and l2 = pack_I_length [OF p2]
  note u1 = unpack_pack_I [OF p1] and u2 = unpack_pack_I [OF p2]
  have nz: "int (length d) \<noteq> 0"
    using assms(2) by simp
  consider "k < 4" | "k = 4" | "4 < k" "k < 8" | "8 \<le> k"
    by linarith
  then show ?thesis
  proof cases
    case 1
    then have "take k fr = take k h1"
      by (simp add: fr l1)
    moreover have "take k h1 \<noteq> []" "length (take k h1) < 4"
      using 1 assms(3) l1 by auto
    ultimately show ?thesis
      using 1 by (simp add: stream_decompress_short)
  next
    case 2
    then have "take k fr = h1"
      by (simp add: fr l1)
    then show ?thesis
      using 2 by (simp add: stream_decompress_no_second_field [OF l1 u1 nz])
  next
    case 3
    then have "take k fr = h1 @ take (k - 4) h2"
      by (simp add: fr l1 l2)
    moreover have "take (k - 4) h2 \<noteq> []" "length (take (k - 4) h2) < 4"
      using 3 l2 by auto
    ultimately show ?thesis
      using 3 by (simp add: stream_decompress_short_second_field [OF l1 u1 nz])
  next
    case 4
    then have "take k fr = h1 @ h2 @ take (k - 8) (compress d)"
      by (simp add: fr l1 l2)
    moreover have "int (length (take (k - 8) (compress d))) < int (length (compress d))"
      using 4 assms(4) by (simp add: fr l1 l2)
    ultimately show ?thesis
      using 4 by (simp add: stream_decompress_short_body [OF l1 u1 nz l2 u2])
  qed
qed

theorem truncated_frame_raises_witness:
  "stream_decompress stored_uncompress
     \<lparr>src = take 9 [0, 0, 0, 1, 0, 0, 0, 2, 0, 7], dst = []\<rparr> =
     (Some (UncompressError Failed_to_read_compressed_chunk), \<lparr>src = [], dst = []\<rparr>)"
proof -
  have a: "add_chunk stored_compress [7] = Inr [0, 0, 0, 1, 0, 0, 0, 2, 0, 7]"
    by (simp add: add_chunk_def prepare_num_def pack_I_small stored_compress_def)
  show ?thesis
    using truncated_frame_raises [OF a, of 9 stored_uncompress "[]"] by simp
qed

text \<open>
  The claim as stated covers every valid frame. The frame of the empty payload starts with
  a zero field: on its prefixes of 4 and of 8 bytes \<open>stream_decompress\<close> returns normally.
\<close>

theorem truncated_empty_frame_counterexample:
  "add_chunk stored_compress [] = Inr [0, 0, 0, 0, 0, 0, 0, 1, 0] \<and>
   stream_decompress stored_uncompress
     \<lparr>src = take 4 [0, 0, 0, 0, 0, 0, 0, 1, 0], dst = []\<rparr> =
     (None, \<lparr>src = [], dst = []\<rparr>) \<and>
   stream_decompress stored_uncompress
     \<lparr>src = take 8 [0, 0, 0, 0, 0, 0, 0, 1, 0], dst = []\<rparr> =
     (None, \<lparr>src = [0, 0, 0, 1], dst = []\<rparr>)"
  by (simp add: add_chunk_def prepare_num_def pack_I_small stored_compress_def
        stream_decompress.simps read_int_def fread_def)

subsection \<open>C5: the length check of \<open>stream_decompress\<close>\<close>

text \<open>The sink only grows: what was written stays written, whatever comes later.\<close>

lemma stream_decompress_dst_prefix:
  "prefix (dst f) (dst (snd (stream_decompress uncompress f)))"
proof (induction uncompress f rule: stream_decompress.induct)
  case (1 uncompress f)
  show ?case
    apply (subst stream_decompress.simps)
    apply (auto split: prod.splits sum.splits simp: Let_def)
    subgoal for x2 x2a x1 x2b x2c
      using 1 [of "Inr (int (length x2c))" x2 "int (length x2c)"
                  "Inr (int (length x1))" x2a "int (length x1)" "(x1, x2b)" x1 x2b x2c]
      by (auto dest: append_prefixD)
    done
qed

text \<open>
  C5. Let the source hold two length fields with the non-zero values \<open>ulen\<close> and \<open>clen\<close>,
  then a complete body of \<open>clen\<close> bytes that the codec decodes to \<open>out\<close>. If the length of
  \<open>out\<close> equals \<open>ulen\<close>, the frame is accepted: \<open>out\<close> is appended to the sink, where it
  stays, and decoding goes on behind the frame. If the lengths differ,
  \<^verbatim>\<open>UncompressError\<close> is raised and the sink holds what it held before the frame.
\<close>

theorem stream_decompress_length_check:
  assumes "length h1 = 4" "unpack_I h1 = Inr ulen" "ulen \<noteq> 0"
    and "length h2 = 4" "unpack_I h2 = Inr clen" "clen \<noteq> 0"
    and "int (length body) = clen"
    and "uncompress body = Inr out"
  shows "(int (length out) = ulen \<longrightarrow>
            stream_decompress uncompress \<lparr>src = h1 @ h2 @ body @ tail, dst = w\<rparr> =
              stream_decompress uncompress \<lparr>src = tail, dst = w @ out\<rparr> \<and>
            prefix (w @ out)
              (dst (snd (stream_decompress uncompress
                           \<lparr>src = h1 @ h2 @ body @ tail, dst = w\<rparr>)))) \<and>
         (int (length out) \<noteq> ulen \<longrightarrow>
            stream_decompress uncompress \<lparr>src = h1 @ h2 @ body @ tail, dst = w\<rparr> =
              (Some (UncompressError (Chunk_length_mismatch ulen (int (length out)))),
               \<lparr>src = tail, dst = w\<rparr>))"
proof -
  have step: "stream_decompress uncompress \<lparr>src = h1 @ h2 @ body @ tail, dst = w\<rparr> =
      (if int (length out) \<noteq> ulen
       then (Some (UncompressError (Chunk_length_mismatch ulen (int (length out)))),
             \<lparr>src = tail, dst = w\<rparr>)
       else stream_decompress uncompress \<lparr>src = tail, dst = w @ out\<rparr>)"
    by (subst stream_decompress_frame [OF assms(1-7)]) (simp add: assms(8))
  have "prefix (dst \<lparr>src = tail, dst = w @ out\<rparr>)
          (dst (snd (stream_decompress uncompress \<lparr>src = tail, dst = w @ out\<rparr>)))"
    by (rule stream_decompress_dst_prefix)
  with step show ?thesis
    by simp
qed

text \<open>A frame that declares 1 byte and one that declares 5, both with a body that
  decodes to 1 byte.\<close>

theorem stream_decompress_length_check_witness:
  "stream_decompress stored_uncompress
     \<lparr>src = [0, 0, 0, 1] @ [0, 0, 0, 2] @ [0, 7] @ [], dst = []\<rparr> =
     (None, \<lparr>src = [], dst = [7]\<rparr>) \<and>
   stream_decompress stored_uncompress
     \<lparr>src = [0, 0, 0, 5] @ [0, 0, 0, 2] @ [0, 7] @ [], dst = []\<rparr> =
     (Some (UncompressError (Chunk_length_mismatch 5 1)), \<lparr>src = [], dst = []\<rparr>)"
  using
    stream_decompress_length_check
      [where ?h1.0 = "[0, 0, 0, 1]" and ulen = 1 and ?h2.0 = "[0, 0, 0, 2]" and clen = 2
         and body = "[0, 7]" and uncompress = stored_uncompress and out = "[7]"
         and tail = "[]" and w = "[]"]
    stream_decompress_length_check
      [where ?h1.0 = "[0, 0, 0, 5]" and ulen = 5 and ?h2.0 = "[0, 0, 0, 2]" and clen = 2
         and body = "[0, 7]" and uncompress = stored_uncompress and out = "[7]"
         and tail = "[]" and w = "[]"]
  by (simp add: stream_decompress_end)

subsection \<open>C6: concatenated frames\<close>

lemma stream_decompress_last_chunk:
  assumes "add_chunk compress d = Inr fr" "compress d \<noteq> []"
    and "uncompress (compress d) = Inr d"
  shows "stream_decompress uncompress \<lparr>src = fr, dst = w\<rparr> =
           (None, \<lparr>src = (if d = [] then drop 4 fr else []), dst = w @ d\<rparr>)"
proof (cases "d = []")
  case True
  with add_chunk_empty [of compress fr] assms(1) obtain h2 where
    fr: "fr = [0, 0, 0, 0] @ h2 @ compress []"
    by blast
  have "stream_decompress uncompress \<lparr>src = [0, 0, 0, 0] @ (h2 @ compress []), dst = w\<rparr> =
          (None, \<lparr>src = h2 @ compress [], dst = w\<rparr>)"
    by (rule stream_decompress_zero) simp_all
  with True show ?thesis
    by (simp add: fr)
next
  case False
  from stream_decompress_add_chunk
         [where compress = compress and uncompress = uncompress and tail = "[]",
          OF assms(1) False assms(2,3)]
  show ?thesis
    using False by (simp add: stream_decompress_end)
qed

text \<open>
  C6, as amended. Let the codec round-trip and never return an empty block, and let
  \<open>add_chunk\<close> succeed on \<open>d1\<close>, \<open>d2\<close> and \<open>d3\<close>. If \<open>d1\<close> is not empty, \<open>stream_decompress\<close> on
  the frame of \<open>d1\<close> followed by the frame of \<open>d2\<close> writes \<open>d1 @ d2\<close> and returns normally.
  If \<open>d2\<close> is not empty either, the three frames in a row give \<open>d1 @ d2 @ d3\<close>. Only the
  last payload may be empty; then decoding stops behind the first field of its frame.
\<close>

theorem concatenated_frames_decode:
  assumes "add_chunk compress d1 = Inr f1" "add_chunk compress d2 = Inr f2"
    and "add_chunk compress d3 = Inr f3"
    and "d1 \<noteq> []"
    and rt: "\<And>x. uncompress (compress x) = Inr x"
    and ne: "\<And>x. compress x \<noteq> []"
  shows "stream_decompress uncompress \<lparr>src = f1 @ f2, dst = []\<rparr> =
           (None, \<lparr>src = (if d2 = [] then drop 4 f2 else []), dst = d1 @ d2\<rparr>) \<and>
         (d2 \<noteq> [] \<longrightarrow>
            stream_decompress uncompress \<lparr>src = f1 @ f2 @ f3, dst = []\<rparr> =
              (None, \<lparr>src = (if d3 = [] then drop 4 f3 else []), dst = d1 @ d2 @ d3\<rparr>))"
proof -
  have s1: "stream_decompress uncompress \<lparr>src = f1 @ s, dst = []\<rparr> =
              stream_decompress uncompress \<lparr>src = s, dst = d1\<rparr>" for s
    using stream_decompress_add_chunk
            [where compress = compress and uncompress = uncompress and w = "[]",
             OF assms(1) assms(4) ne rt]
    by simp
  have s2: "stream_decompress uncompress \<lparr>src = f2 @ s, dst = d1\<rparr> =
              stream_decompress uncompress \<lparr>src = s, dst = d1 @ d2\<rparr>" if "d2 \<noteq> []" for s
    by (rule stream_decompress_add_chunk
          [where compress = compress and uncompress = uncompress, OF assms(2) that ne rt])
  have "stream_decompress uncompress \<lparr>src = f1 @ f2, dst = []\<rparr> =
          (None, \<lparr>src = (if d2 = [] then drop 4 f2 else []), dst = d1 @ d2\<rparr>)"
    unfolding s1
    by (rule stream_decompress_last_chunk
          [where compress = compress and uncompress = uncompress, OF assms(2) ne rt])
  moreover have "stream_decompress uncompress \<lparr>src = f1 @ f2 @ f3, dst = []\<rparr> =
      (None, \<lparr>src = (if d3 = [] then drop 4 f3 else []), dst = d1 @ d2 @ d3\<rparr>)"
    if "d2 \<noteq> []"
    unfolding s1 s2 [OF that]
    using stream_decompress_last_chunk
            [where compress = compress and uncompress = uncompress and w = "d1 @ d2",
             OF assms(3) ne rt]
    by simp
  ultimately show ?thesis
    by blast
qed

theorem concatenated_frames_decode_witness:
  "stream_decompress stored_uncompress
     \<lparr>src = [0, 0, 0, 1, 0, 0, 0, 2, 0, 7] @ [0, 0, 0, 2, 0, 0, 0, 3, 0, 8, 9], dst = []\<rparr> =
     (None, \<lparr>src = [], dst = [7] @ [8, 9]\<rparr>) \<and>
   stream_decompress stored_uncompress
     \<lparr>src = [0, 0, 0, 1, 0, 0, 0, 2, 0, 7] @ [0, 0, 0, 2, 0, 0, 0, 3, 0, 8, 9]
              @ [0, 0, 0, 1, 0, 0, 0, 2, 0, 5], dst = []\<rparr> =
     (None, \<lparr>src = [], dst = [7] @ [8, 9] @ [5]\<rparr>)"
proof -
  have a: "add_chunk stored_compress [7] = Inr [0, 0, 0, 1, 0, 0, 0, 2, 0, 7]"
    by (simp add: add_chunk_def prepare_num_def pack_I_small stored_compress_def)
  have b: "add_chunk stored_compress [8, 9] = Inr [0, 0, 0, 2, 0, 0, 0, 3, 0, 8, 9]"
    by (simp add: add_chunk_def prepare_num_def pack_I_small stored_compress_def)
  have c: "add_chunk stored_compress [5] = Inr [0, 0, 0, 1, 0, 0, 0, 2, 0, 5]"
    by (simp add: add_chunk_def prepare_num_def pack_I_small stored_compress_def)
  have d: "[7 :: byte] \<noteq> []"
    by simp
  show ?thesis
    using concatenated_frames_decode
            [where uncompress = stored_uncompress, OF a b c d stored_roundtrip stored_nonempty]
    by simp
qed

text \<open>
  The claim as stated holds for any payloads. With an empty \<open>d1\<close> and \<open>d2 = [7]\<close> the
  first field read is zero: \<open>stream_decompress\<close> returns at once and writes nothing, not
  \<open>d1 @ d2 = [7]\<close>.
\<close>

theorem empty_first_payload_counterexample:
  "add_chunk stored_compress [] = Inr [0, 0, 0, 0, 0, 0, 0, 1, 0] \<and>
   add_chunk stored_compress [7] = Inr [0, 0, 0, 1, 0, 0, 0, 2, 0, 7] \<and>
   stream_decompress stored_uncompress
     \<lparr>src = [0, 0, 0, 0, 0, 0, 0, 1, 0] @ [0, 0, 0, 1, 0, 0, 0, 2, 0, 7], dst = []\<rparr> =
     (None, \<lparr>src = [0, 0, 0, 1, 0] @ [0, 0, 0, 1, 0, 0, 0, 2, 0, 7], dst = []\<rparr>)"
  by (simp add: add_chunk_def prepare_num_def pack_I_small stored_compress_def
        stream_decompress.simps read_int_def fread_def)

subsection \<open>C7: the sizing bound\<close>




subsection \<open>C8: a zero uncompressed length ends the stream\<close>

text \<open>
  C8. After any number of frames of non-empty chunks, a length field of value zero makes
  \<open>stream_decompress\<close> return normally; the bytes behind the field are left unread. The
  frame that \<open>add_chunk\<close> builds for the empty chunk starts with such a field, so decoding
  stops inside it and nothing behind it is decoded: an empty chunk cannot stand in front
  of other frames.
\<close>

theorem zero_length_field_terminates:
  assumes "add_chunks compress xs = Inr enc"
    and "\<forall>x \<in> set xs. x \<noteq> [] \<and> compress x \<noteq> [] \<and> uncompress (compress x) = Inr x"
    and "add_chunk compress [] = Inr empty_frame"
  shows "stream_decompress uncompress \<lparr>src = enc @ [0, 0, 0, 0] @ tail, dst = w\<rparr> =
           (None, \<lparr>src = tail, dst = w @ concat xs\<rparr>) \<and>
         stream_decompress uncompress \<lparr>src = enc @ empty_frame @ tail, dst = w\<rparr> =
           (None, \<lparr>src = drop 4 empty_frame @ tail, dst = w @ concat xs\<rparr>)"
proof -
  have z: "length [0, 0, 0, 0 :: byte] = 4" "unpack_I [0, 0, 0, 0] = Inr 0"
    by simp_all
  have dec: "stream_decompress uncompress \<lparr>src = enc @ s, dst = w\<rparr> =
               stream_decompress uncompress \<lparr>src = s, dst = w @ concat xs\<rparr>" for s
    using assms(2) by (intro stream_decompress_add_chunks [OF assms(1)]) simp
  from add_chunk_empty [OF assms(3)] obtain h2 where
    fr: "empty_frame = [0, 0, 0, 0] @ h2 @ compress []"
    by blast
  have "stream_decompress uncompress \<lparr>src = enc @ [0, 0, 0, 0] @ s, dst = w\<rparr> =
          (None, \<lparr>src = s, dst = w @ concat xs\<rparr>)" for s
    unfolding dec by (rule stream_decompress_zero [OF z])
  from this [of tail] this [of "(h2 @ compress []) @ tail"] show ?thesis
    by (simp add: fr)
qed

theorem zero_length_field_terminates_witness:
  "stream_decompress stored_uncompress
     \<lparr>src = [0, 0, 0, 1, 0, 0, 0, 2, 0, 7] @ [0, 0, 0, 0] @ [9, 9], dst = []\<rparr> =
     (None, \<lparr>src = [9, 9], dst = [7]\<rparr>) \<and>
   stream_decompress stored_uncompress
     \<lparr>src = [0, 0, 0, 1, 0, 0, 0, 2, 0, 7] @ [0, 0, 0, 0, 0, 0, 0, 1, 0] @ [9, 9], dst = []\<rparr> =
     (None, \<lparr>src = [0, 0, 0, 1, 0, 9, 9], dst = [7]\<rparr>)"
proof -
  have a: "add_chunks stored_compress [[7]] = Inr [0, 0, 0, 1, 0, 0, 0, 2, 0, 7]"
    by (simp add: add_chunk_def prepare_num_def pack_I_small stored_compress_def)
  have b: "\<forall>x \<in> set [[7 :: byte]]. x \<noteq> [] \<and> stored_compress x \<noteq> [] \<and>
             stored_uncompress (stored_compress x) = Inr x"
    by (simp add: stored_compress_def)
  have c: "add_chunk stored_compress [] = Inr [0, 0, 0, 0, 0, 0, 0, 1, 0]"
    by (simp add: add_chunk_def prepare_num_def pack_I_small stored_compress_def)
  show ?thesis
    using zero_length_field_terminates [OF a b c, of "[9, 9]" "[]"] by simp
qed

subsection \<open>C9: the end of the input at a frame boundary\<close>

text \<open>
  C9, as amended. When the input ends exactly behind a frame, with no byte of a further
  length field, \<open>stream_decompress\<close> returns normally with the chunks of all frames written.
  A further length field of one to three bytes is not taken as the end of the stream:
  \<^verbatim>\<open>struct.unpack\<close> raises \<^verbatim>\<open>struct.error\<close>.
\<close>

theorem end_at_frame_boundary:
  assumes "add_chunks compress xs = Inr enc"
    and "\<forall>x \<in> set xs. x \<noteq> [] \<and> compress x \<noteq> [] \<and> uncompress (compress x) = Inr x"
  shows "stream_decompress uncompress \<lparr>src = enc, dst = w\<rparr> =
           (None, \<lparr>src = [], dst = w @ concat xs\<rparr>) \<and>
         (t \<noteq> [] \<and> length t < 4 \<longrightarrow>
            stream_decompress uncompress \<lparr>src = enc @ t, dst = w\<rparr> =
              (Some StructError, \<lparr>src = [], dst = w @ concat xs\<rparr>))"
proof -
  have dec: "stream_decompress uncompress \<lparr>src = enc @ s, dst = w\<rparr> =
               stream_decompress uncompress \<lparr>src = s, dst = w @ concat xs\<rparr>" for s
    using assms(2) by (intro stream_decompress_add_chunks [OF assms(1)]) simp
  from dec [of "[]"] have "stream_decompress uncompress \<lparr>src = enc, dst = w\<rparr> =
      (None, \<lparr>src = [], dst = w @ concat xs\<rparr>)"
    by (simp add: stream_decompress_end)
  moreover have "stream_decompress uncompress \<lparr>src = enc @ t, dst = w\<rparr> =
      (Some StructError, \<lparr>src = [], dst = w @ concat xs\<rparr>)"
    if "t \<noteq> []" "length t < 4"
    unfolding dec by (rule stream_decompress_short [OF that])
  ultimately show ?thesis
    by blast
qed

theorem end_at_frame_boundary_witness:
  "stream_decompress stored_uncompress
     \<lparr>src = [0, 0, 0, 1, 0, 0, 0, 2, 0, 7], dst = []\<rparr> =
     (None, \<lparr>src = [], dst = [7]\<rparr>) \<and>
   stream_decompress stored_uncompress
     \<lparr>src = [0, 0, 0, 1, 0, 0, 0, 2, 0, 7] @ [0, 0, 1], dst = []\<rparr> =
     (Some StructError, \<lparr>src = [], dst = [7]\<rparr>)"
proof -
  have a: "add_chunks stored_compress [[7]] = Inr [0, 0, 0, 1, 0, 0, 0, 2, 0, 7]"
    by (simp add: add_chunk_def prepare_num_def pack_I_small stored_compress_def)
  have b: "\<forall>x \<in> set [[7 :: byte]]. x \<noteq> [] \<and> stored_compress x \<noteq> [] \<and>
             stored_uncompress (stored_compress x) = Inr x"
    by (simp add: stored_compress_def)
  show ?thesis
    using end_at_frame_boundary [OF a b, of "[]" "[0, 0, 1]"] by simp
qed

text \<open>
  The claim as stated lets a short final length field end the stream without an error.
  One frame followed by two bytes raises \<^verbatim>\<open>struct.error\<close>.
\<close>

theorem short_final_field_counterexample:
  "add_chunk stored_compress [7] = Inr [0, 0, 0, 1, 0, 0, 0, 2, 0, 7] \<and>
   stream_decompress stored_uncompress
     \<lparr>src = [0, 0, 0, 1, 0, 0, 0, 2, 0, 7] @ [0, 0], dst = []\<rparr> =
     (Some StructError, \<lparr>src = [], dst = [7]\<rparr>)"
  by (simp add: add_chunk_def prepare_num_def pack_I_small stored_compress_def
        stream_decompress.simps read_int_def fread_def)

subsection \<open>C10: the sizing calculation on a block size that is not positive\<close>




end
